theory Spec2Isabelle
  imports Complex_Main
begin

section \<open>The shared shop state (class ShopState)\<close>

text \<open>
  The fields of \<^verbatim>\<open>ShopState\<close> as the constructor declares them. Python's unbounded
  integers are \<open>int\<close>, the deque of customer ids is a list whose head is the left end,
  the status is the string the code stores, and the two optional fields are options.
  Durations and clock readings are modelled as real numbers. The lock itself carries no
  data: every access of the code sits inside a \<^verbatim>\<open>with state.lock\<close> block, and each
  such block is one atomic function below.
\<close>

record ShopState =
  capacity :: int
  cut_time :: real
  arrival_speed :: int
  waiting :: "int list"
  served :: int
  left :: int
  barber_status :: string
  current_customer :: "int option"
  haircut_start_time :: "real option"

definition ShopState_init :: "int \<Rightarrow> real \<Rightarrow> ShopState" where
  "ShopState_init cap ct =
     \<lparr> capacity = cap, cut_time = ct, arrival_speed = 3,
       waiting = [], served = 0, left = 0,
       barber_status = ''sleeping'',
       current_customer = None, haircut_start_time = None \<rparr>"

subsection \<open>The locked sections\<close>

text \<open>Lines 87-93 of \<^verbatim>\<open>customer_worker\<close>: the result is the local \<^verbatim>\<open>admitted\<close>.\<close>

definition customer_enter :: "ShopState \<Rightarrow> int \<Rightarrow> bool \<times> ShopState" where
  "customer_enter st cid =
     (if int (length (waiting st)) < capacity st
      then (True, st\<lparr>waiting := waiting st @ [cid]\<rparr>)
      else (False, st\<lparr>left := left st + 1\<rparr>))"

text \<open>Lines 46-48 of \<^verbatim>\<open>barber_worker\<close>: the section run after a timed-out acquire.\<close>

definition barber_idle :: "ShopState \<Rightarrow> ShopState" where
  "barber_idle st =
     (if waiting st = [] \<and> barber_status st \<noteq> ''cutting''
      then st\<lparr>barber_status := ''sleeping''\<rparr> else st)"

text \<open>Lines 72-78 of \<^verbatim>\<open>barber_worker\<close>: the end of the haircut of \<open>cid\<close>.\<close>

definition barber_finish :: "ShopState \<Rightarrow> int \<Rightarrow> ShopState" where
  "barber_finish st cid =
     (if current_customer st = Some cid
      then st\<lparr>current_customer := None, haircut_start_time := None,
              served := served st + 1,
              barber_status := (if waiting st = [] then ''sleeping'' else ''cutting'')\<rparr>
      else st)"

section \<open>The generator's table\<close>

definition speed_to_interval :: "int \<rightharpoonup> real" where
  "speed_to_interval = [1 \<mapsto> 2.0, 2 \<mapsto> 1.0, 3 \<mapsto> 0.6, 4 \<mapsto> 0.4, 5 \<mapsto> 0.25]"

text \<open>\<^verbatim>\<open>speed_to_interval.get(speed, 0.6)\<close>\<close>

definition interval_for :: "int \<Rightarrow> real" where
  "interval_for speed = (case speed_to_interval speed of Some i \<Rightarrow> i | None \<Rightarrow> 0.6)"

section \<open>The threads and the two semaphores\<close>

text \<open>
  The program is a set of threads over one \<open>ShopState\<close>, the two module-level
  semaphores and the stop event. A thread is modelled by its program point; one step of
  a thread is one locked section, one semaphore operation or one test of the stop event,
  so every interleaving of the threads at these points is a sequence of steps.
  \<^verbatim>\<open>Semaphore.acquire(timeout=0.1)\<close> returns false only if the counter is zero when
  it gives up, so an acquire step takes a unit if one is there and times out otherwise.
\<close>

datatype barber_pc =
    BLoop          \<comment> \<open>line 41: test of the stop event\<close>
  | BAcquire       \<comment> \<open>line 43: \<^verbatim>\<open>customers_sem.acquire(timeout=0.1)\<close>\<close>
  | BTimedOut      \<comment> \<open>lines 46-49\<close>
  | BGot           \<comment> \<open>lines 52-62\<close>
  | BCut int       \<comment> \<open>lines 65-78, with the local \<^verbatim>\<open>cid\<close>\<close>
  | BExited

datatype cust_pc =
    CStart         \<comment> \<open>lines 87-96\<close>
  | CAdmitted      \<comment> \<open>line 99: \<^verbatim>\<open>customers_sem.release()\<close>\<close>
  | CLoop          \<comment> \<open>line 102: test of the stop event\<close>
  | CAcquire       \<comment> \<open>line 103: \<^verbatim>\<open>barber_sem.acquire(timeout=0.1)\<close>\<close>
  | CDone

datatype gen_pc =
    GLoop          \<comment> \<open>line 116: test of the stop event\<close>
  | GRead          \<comment> \<open>lines 117-119\<close>
  | GTick real     \<comment> \<open>lines 121-130, with the local \<^verbatim>\<open>interval\<close>\<close>
  | GExited

record sys =
  shop :: ShopState
  customers_sem :: nat
  barber_sem :: nat
  stop_event :: bool
  barber_t :: barber_pc
  gen_t :: gen_pc
  next_emit :: real
  counter :: int
  customer_ts :: "(int \<times> cust_pc) list"

text \<open>
  \<^verbatim>\<open>run_curses\<close> on a fresh state: both semaphores at zero, the event clear, the barber
  and the generator started, \<^verbatim>\<open>itertools.count(1)\<close>, and \<^verbatim>\<open>next_emit\<close> the clock
  reading \<open>t0\<close> of line 115.
\<close>

definition init_sys :: "int \<Rightarrow> real \<Rightarrow> real \<Rightarrow> sys" where
  "init_sys cap ct t0 =
     \<lparr> shop = ShopState_init cap ct, customers_sem = 0, barber_sem = 0,
       stop_event = False, barber_t = BLoop, gen_t = GLoop,
       next_emit = t0, counter = 1, customer_ts = [] \<rparr>"

text \<open>What a step lets an observer see: the value of a local variable of the code.\<close>

datatype label = Admitted int | Rejected int | Seated int | Silent

text \<open>
  Lines 52-62 of \<^verbatim>\<open>barber_worker\<close>, with the clock reading \<open>now\<close> of line 57. The
  release of \<^verbatim>\<open>barber_sem\<close> is inside the section; the result is the local \<^verbatim>\<open>cid\<close>,
  or \<open>None\<close> on the \<^verbatim>\<open>continue\<close> of line 62.
\<close>

definition barber_seat :: "real \<Rightarrow> sys \<Rightarrow> int option \<times> sys" where
  "barber_seat now s =
     (case waiting (shop s) of
        [] \<Rightarrow> (None, s)
      | cid # rest \<Rightarrow>
          (Some cid,
           s\<lparr>shop := (shop s)\<lparr>waiting := rest, barber_status := ''cutting'',
                              current_customer := Some cid,
                              haircut_start_time := Some now\<rparr>,
             barber_sem := barber_sem s + 1\<rparr>))"

definition barber_worker_step :: "real \<Rightarrow> sys \<Rightarrow> (label \<times> sys) option" where
  "barber_worker_step now s =
     (case barber_t s of
        BLoop \<Rightarrow>
          Some (Silent, s\<lparr>barber_t := (if stop_event s then BExited else BAcquire)\<rparr>)
      | BAcquire \<Rightarrow>
          Some (Silent,
            if 0 < customers_sem s
            then s\<lparr>customers_sem := customers_sem s - 1, barber_t := BGot\<rparr>
            else s\<lparr>barber_t := BTimedOut\<rparr>)
      | BTimedOut \<Rightarrow>
          Some (Silent, s\<lparr>shop := barber_idle (shop s), barber_t := BLoop\<rparr>)
      | BGot \<Rightarrow>
          (case barber_seat now s of
             (None, s') \<Rightarrow> Some (Silent, s'\<lparr>barber_t := BLoop\<rparr>)
           | (Some cid, s') \<Rightarrow> Some (Seated cid, s'\<lparr>barber_t := BCut cid\<rparr>))
      | BCut cid \<Rightarrow>
          Some (Silent, s\<lparr>shop := barber_finish (shop s) cid, barber_t := BLoop\<rparr>)
      | BExited \<Rightarrow> None)"

definition set_pc :: "nat \<Rightarrow> cust_pc \<Rightarrow> sys \<Rightarrow> sys" where
  "set_pc i pc s =
     s\<lparr>customer_ts := (customer_ts s)[i := (fst (customer_ts s ! i), pc)]\<rparr>"

definition customer_worker_step :: "nat \<Rightarrow> sys \<Rightarrow> (label \<times> sys) option" where
  "customer_worker_step i s =
     (if i < length (customer_ts s) then
        (case customer_ts s ! i of (cid, pc) \<Rightarrow>
           (case pc of
              CStart \<Rightarrow>
                (case customer_enter (shop s) cid of
                   (True, st) \<Rightarrow> Some (Admitted cid, set_pc i CAdmitted (s\<lparr>shop := st\<rparr>))
                 | (False, st) \<Rightarrow> Some (Rejected cid, set_pc i CDone (s\<lparr>shop := st\<rparr>)))
            | CAdmitted \<Rightarrow>
                Some (Silent, set_pc i CLoop (s\<lparr>customers_sem := customers_sem s + 1\<rparr>))
            | CLoop \<Rightarrow>
                Some (Silent, set_pc i (if stop_event s then CDone else CAcquire) s)
            | CAcquire \<Rightarrow>
                Some (Silent,
                  if 0 < barber_sem s
                  then set_pc i CDone (s\<lparr>barber_sem := barber_sem s - 1\<rparr>)
                  else set_pc i CLoop s)
            | CDone \<Rightarrow> None))
      else None)"

definition generator_worker_step :: "real \<Rightarrow> sys \<Rightarrow> (label \<times> sys) option" where
  "generator_worker_step now s =
     (case gen_t s of
        GLoop \<Rightarrow> Some (Silent, s\<lparr>gen_t := (if stop_event s then GExited else GRead)\<rparr>)
      | GRead \<Rightarrow> Some (Silent, s\<lparr>gen_t := GTick (interval_for (arrival_speed (shop s)))\<rparr>)
      | GTick interval \<Rightarrow>
          Some (Silent,
            if now < next_emit s then s\<lparr>gen_t := GLoop\<rparr>
            else s\<lparr>customer_ts := customer_ts s @ [(counter s, CStart)],
                   counter := counter s + 1,
                   next_emit := now + interval, gen_t := GLoop\<rparr>)
      | GExited \<Rightarrow> None)"

text \<open>
  The main thread (lines 199-216): a key 1-5 stores the speed under the lock, the key q
  leaves the loop and sets the stop event, after which no key is read.
\<close>

datatype event =
    Barber real | Customer nat | Generator real | KeySpeed int | KeyQuit

definition step :: "event \<Rightarrow> sys \<Rightarrow> (label \<times> sys) option" where
  "step e s =
     (case e of
        Barber now \<Rightarrow> barber_worker_step now s
      | Customer i \<Rightarrow> customer_worker_step i s
      | Generator now \<Rightarrow> generator_worker_step now s
      | KeySpeed n \<Rightarrow>
          (if \<not> stop_event s \<and> 1 \<le> n \<and> n \<le> 5
           then Some (Silent, s\<lparr>shop := (shop s)\<lparr>arrival_speed := n\<rparr>\<rparr>) else None)
      | KeyQuit \<Rightarrow>
          (if \<not> stop_event s then Some (Silent, s\<lparr>stop_event := True\<rparr>) else None))"

text \<open>A schedule is a list of events; it runs if every step is enabled in its turn.\<close>

fun run :: "event list \<Rightarrow> sys \<Rightarrow> (label list \<times> sys) option" where
  "run [] s = Some ([], s)"
| "run (e # es) s =
     (case step e s of
        None \<Rightarrow> None
      | Some (l, s') \<Rightarrow>
          (case run es s' of
             None \<Rightarrow> None
           | Some (ls, s'') \<Rightarrow> Some (l # ls, s'')))"

fun admitted_ids :: "label list \<Rightarrow> int list" where
  "admitted_ids [] = []"
| "admitted_ids (Admitted c # ls) = c # admitted_ids ls"
| "admitted_ids (_ # ls) = admitted_ids ls"

fun seated_ids :: "label list \<Rightarrow> int list" where
  "seated_ids [] = []"
| "seated_ids (Seated c # ls) = c # seated_ids ls"
| "seated_ids (_ # ls) = seated_ids ls"

fun rejected_ids :: "label list \<Rightarrow> int list" where
  "rejected_ids [] = []"
| "rejected_ids (Rejected c # ls) = c # rejected_ids ls"
| "rejected_ids (_ # ls) = rejected_ids ls"

text \<open>The position of the first occurrence of an element.\<close>

fun first_index :: "'a list \<Rightarrow> 'a \<Rightarrow> nat option" where
  "first_index [] a = None"
| "first_index (x # xs) a = (if x = a then Some 0 else map_option Suc (first_index xs a))"

subsection \<open>Quantities the invariants speak about\<close>

text \<open>The customer threads that have left the locked admission section.\<close>

definition past_admission :: "sys \<Rightarrow> nat" where
  "past_admission s = length (filter (\<lambda>t. snd t \<noteq> CStart) (customer_ts s))"

definition in_chair :: "ShopState \<Rightarrow> int" where
  "in_chair st = (case current_customer st of None \<Rightarrow> 0 | Some _ \<Rightarrow> 1)"

text \<open>The customer the barber thread holds in its local \<^verbatim>\<open>cid\<close> during a cut.\<close>

definition chair_of :: "barber_pc \<Rightarrow> int option" where
  "chair_of pc = (case pc of BCut cid \<Rightarrow> Some cid | _ \<Rightarrow> None)"

definition chair_inv :: "sys \<Rightarrow> bool" where
  "chair_inv s \<longleftrightarrow>
     current_customer (shop s) = chair_of (barber_t s)
   \<and> (current_customer (shop s) \<noteq> None \<longrightarrow> barber_status (shop s) = ''cutting'')
   \<and> (barber_status (shop s) = ''cutting'' \<longrightarrow>
        current_customer (shop s) \<noteq> None \<or> waiting (shop s) \<noteq> [])
   \<and> int (past_admission s) =
       served (shop s) + left (shop s) + int (length (waiting (shop s)))
       + in_chair (shop s)"

definition cap_inv :: "int \<Rightarrow> sys \<Rightarrow> bool" where
  "cap_inv cap s \<longleftrightarrow>
     capacity (shop s) = cap \<and> int (length (waiting (shop s))) \<le> cap"

text \<open>
  Customer ids come from the generator's counter: the ids of the threads are below the
  counter and pairwise different, and a thread whose id was admitted has left the
  admission section.
\<close>

definition ids_inv :: "label list \<Rightarrow> sys \<Rightarrow> bool" where
  "ids_inv tr s \<longleftrightarrow>
     (\<forall>t \<in> set (customer_ts s). fst t < counter s)
   \<and> (\<forall>c \<in> set (admitted_ids tr). c < counter s)
   \<and> distinct (map fst (customer_ts s))
   \<and> distinct (admitted_ids tr)
   \<and> (\<forall>t \<in> set (customer_ts s). fst t \<in> set (admitted_ids tr) \<longrightarrow> snd t \<noteq> CStart)"

subsection \<open>What a step shows in the shop state\<close>

text \<open>
  The customers a step appends to the queue, the customer a step makes the current
  customer, and the customer whose haircut a step counts in \<open>served\<close>, each read off the
  shop state before and after the step; \<open>observe\<close> collects them along a schedule.
\<close>

definition joined_queue :: "sys \<Rightarrow> sys \<Rightarrow> int list" where
  "joined_queue s s' = drop (length (waiting (shop s))) (waiting (shop s'))"

definition became_current :: "sys \<Rightarrow> sys \<Rightarrow> int list" where
  "became_current s s' =
     (case current_customer (shop s') of
        None \<Rightarrow> []
      | Some c \<Rightarrow> if current_customer (shop s) = Some c then [] else [c])"

definition counted_served :: "sys \<Rightarrow> sys \<Rightarrow> int list" where
  "counted_served s s' =
     (if served (shop s') = served (shop s) + 1
      then (case current_customer (shop s) of None \<Rightarrow> [] | Some c \<Rightarrow> [c])
      else [])"

fun observe :: "(sys \<Rightarrow> sys \<Rightarrow> int list) \<Rightarrow> event list \<Rightarrow> sys \<Rightarrow> int list" where
  "observe f [] s = []"
| "observe f (e # es) s =
     (case step e s of
        None \<Rightarrow> []
      | Some (l, s') \<Rightarrow> f s s' @ observe f es s')"

definition chair_list :: "sys \<Rightarrow> int list" where
  "chair_list s = (case current_customer (shop s) of None \<Rightarrow> [] | Some c \<Rightarrow> [c])"

section \<open>Properties\<close>

subsection \<open>Lists and thread tables\<close>

lemma filter_update_same:
  "i < length xs \<Longrightarrow> P (xs ! i) = P y \<Longrightarrow>
   length (filter P (xs[i := y])) = length (filter P xs)"
proof (induction xs arbitrary: i)
  case Nil
  then show ?case by simp
next
  case (Cons x xs)
  then show ?case by (cases i) auto
qed

lemma filter_update_gain:
  "i < length xs \<Longrightarrow> \<not> P (xs ! i) \<Longrightarrow> P y \<Longrightarrow>
   length (filter P (xs[i := y])) = Suc (length (filter P xs))"
proof (induction xs arbitrary: i)
  case Nil
  then show ?case by simp
next
  case (Cons x xs)
  then show ?case by (cases i) auto
qed

lemma past_admission_set_pc_same:
  "i < length (customer_ts s) \<Longrightarrow> snd (customer_ts s ! i) \<noteq> CStart \<Longrightarrow> pc \<noteq> CStart \<Longrightarrow>
   past_admission (set_pc i pc s) = past_admission s"
  by (simp add: past_admission_def set_pc_def filter_update_same)

lemma past_admission_set_pc_gain:
  "i < length (customer_ts s) \<Longrightarrow> snd (customer_ts s ! i) = CStart \<Longrightarrow> pc \<noteq> CStart \<Longrightarrow>
   past_admission (set_pc i pc s) = Suc (past_admission s)"
  by (simp add: past_admission_def set_pc_def filter_update_gain)

lemma set_pc_fields [simp]:
  "shop (set_pc i pc s) = shop s"
  "barber_t (set_pc i pc s) = barber_t s"
  "customers_sem (set_pc i pc s) = customers_sem s"
  "barber_sem (set_pc i pc s) = barber_sem s"
  "stop_event (set_pc i pc s) = stop_event s"
  "length (customer_ts (set_pc i pc s)) = length (customer_ts s)"
  by (simp_all add: set_pc_def)

lemma past_admission_upd [simp]:
  "past_admission (s\<lparr>shop := st\<rparr>) = past_admission s"
  "past_admission (s\<lparr>customers_sem := n\<rparr>) = past_admission s"
  "past_admission (s\<lparr>barber_sem := n\<rparr>) = past_admission s"
  "past_admission (s\<lparr>barber_t := b\<rparr>) = past_admission s"
  "past_admission (s\<lparr>gen_t := g\<rparr>) = past_admission s"
  "past_admission (s\<lparr>stop_event := e\<rparr>) = past_admission s"
  "past_admission (s\<lparr>next_emit := t\<rparr>) = past_admission s"
  "past_admission (s\<lparr>counter := c\<rparr>) = past_admission s"
  by (simp_all add: past_admission_def)

lemma admitted_ids_append: "admitted_ids (xs @ ys) = admitted_ids xs @ admitted_ids ys"
  by (induction xs rule: admitted_ids.induct) simp_all

lemma seated_ids_append: "seated_ids (xs @ ys) = seated_ids xs @ seated_ids ys"
  by (induction xs rule: seated_ids.induct) simp_all

lemma rejected_ids_append: "rejected_ids (xs @ ys) = rejected_ids xs @ rejected_ids ys"
  by (induction xs rule: rejected_ids.induct) simp_all

lemma first_index_take:
  "first_index (take n xs) a = Some k \<Longrightarrow> first_index xs a = Some k"
proof (induction xs arbitrary: n k)
  case Nil
  then show ?case by simp
next
  case (Cons x xs)
  then show ?case by (cases n) (auto split: if_splits)
qed

subsection \<open>Runs\<close>

text \<open>
  An invariant of traces and states: it holds after a run if it holds before and every
  enabled step keeps it.
\<close>

lemma run_invariant:
  assumes "run es s = Some (ls, s')" and "P pre s"
    and "\<And>tr s e l s'. P tr s \<Longrightarrow> step e s = Some (l, s') \<Longrightarrow> P (tr @ [l]) s'"
  shows "P (pre @ ls) s'"
  using assms(1,2)
proof (induction es arbitrary: s ls pre)
  case Nil
  then show ?case by simp
next
  case (Cons e es)
  from Cons.prems(1) obtain l s1 ls1 where
    st: "step e s = Some (l, s1)" and r: "run es s1 = Some (ls1, s')" and ls: "ls = l # ls1"
    by (auto split: option.splits prod.splits)
  from Cons.prems(2) st have "P (pre @ [l]) s1" by (rule assms(3))
  with r have "P ((pre @ [l]) @ ls1) s'" by (rule Cons.IH)
  with ls show ?case by simp
qed

subsection \<open>What one step does to the queue and the counters\<close>

lemma barber_step_effect:
  assumes "barber_worker_step now s = Some (l, s')"
  shows "seated_ids [l] @ waiting (shop s') = waiting (shop s) @ admitted_ids [l]"
    and "left (shop s') = left (shop s) + int (length (rejected_ids [l]))"
    and "rejected_ids [l] = []"
    and "capacity (shop s') = capacity (shop s)"
  using assms
  by (auto simp: barber_worker_step_def barber_seat_def barber_idle_def barber_finish_def
      split: barber_pc.splits list.splits if_splits)

lemma customer_step_effect:
  assumes "customer_worker_step i s = Some (l, s')"
  shows "seated_ids [l] @ waiting (shop s') = waiting (shop s) @ admitted_ids [l]"
    and "left (shop s') = left (shop s) + int (length (rejected_ids [l]))"
    and "rejected_ids [l] \<noteq> [] \<Longrightarrow> capacity (shop s) \<le> int (length (waiting (shop s')))"
    and "capacity (shop s') = capacity (shop s)"
  using assms
  by (auto simp: customer_worker_step_def customer_enter_def
      split: cust_pc.splits if_splits prod.splits)

lemma generator_step_effect:
  assumes "generator_worker_step now s = Some (l, s')"
  shows "l = Silent" and "shop s' = shop s"
  using assms
  by (auto simp: generator_worker_step_def split: gen_pc.splits if_splits)

lemma step_effect:
  assumes "step e s = Some (l, s')"
  shows "seated_ids [l] @ waiting (shop s') = waiting (shop s) @ admitted_ids [l]"
    and "left (shop s') = left (shop s) + int (length (rejected_ids [l]))"
    and "rejected_ids [l] \<noteq> [] \<Longrightarrow> capacity (shop s) \<le> int (length (waiting (shop s')))"
    and "capacity (shop s') = capacity (shop s)"
proof -
  have "(seated_ids [l] @ waiting (shop s') = waiting (shop s) @ admitted_ids [l])
      \<and> left (shop s') = left (shop s) + int (length (rejected_ids [l]))
      \<and> (rejected_ids [l] \<noteq> [] \<longrightarrow> capacity (shop s) \<le> int (length (waiting (shop s'))))
      \<and> capacity (shop s') = capacity (shop s)"
  proof (cases e)
    case (Barber now)
    with assms have "barber_worker_step now s = Some (l, s')" by (simp add: step_def)
    from barber_step_effect[OF this] show ?thesis by simp
  next
    case (Customer i)
    with assms have "customer_worker_step i s = Some (l, s')" by (simp add: step_def)
    from customer_step_effect[OF this] show ?thesis by simp
  next
    case (Generator now)
    with assms have "generator_worker_step now s = Some (l, s')" by (simp add: step_def)
    from generator_step_effect[OF this] show ?thesis by simp
  next
    case (KeySpeed n)
    with assms show ?thesis by (auto simp: step_def split: if_splits)
  next
    case KeyQuit
    with assms show ?thesis by (auto simp: step_def split: if_splits)
  qed
  then show "seated_ids [l] @ waiting (shop s') = waiting (shop s) @ admitted_ids [l]"
    and "left (shop s') = left (shop s) + int (length (rejected_ids [l]))"
    and "rejected_ids [l] \<noteq> [] \<Longrightarrow> capacity (shop s) \<le> int (length (waiting (shop s')))"
    and "capacity (shop s') = capacity (shop s)"
    by simp_all
qed

subsection \<open>Invariants of every step\<close>

lemma barber_step_chair_inv:
  "chair_inv s \<Longrightarrow> barber_worker_step now s = Some (l, s') \<Longrightarrow> chair_inv s'"
  by (auto simp: chair_inv_def barber_worker_step_def barber_seat_def barber_idle_def
        barber_finish_def chair_of_def in_chair_def
      split: barber_pc.splits list.splits if_splits option.splits)

lemma customer_step_chair_inv:
  assumes "chair_inv s" and "customer_worker_step i s = Some (l, s')"
  shows "chair_inv s'"
proof -
  from assms(2) have i: "i < length (customer_ts s)"
    by (simp add: customer_worker_step_def split: if_splits)
  obtain cid pc where t: "customer_ts s ! i = (cid, pc)" by (cases "customer_ts s ! i")
  show ?thesis
  proof (cases "pc = CStart")
    case True
    with assms i t show ?thesis
      by (auto simp: chair_inv_def customer_worker_step_def customer_enter_def in_chair_def
            past_admission_set_pc_gain split: if_splits)
  next
    case False
    with assms i t show ?thesis
      by (cases pc)
         (auto simp: chair_inv_def customer_worker_step_def in_chair_def
            past_admission_set_pc_same split: if_splits)
  qed
qed

lemma generator_step_chair_inv:
  "chair_inv s \<Longrightarrow> generator_worker_step now s = Some (l, s') \<Longrightarrow> chair_inv s'"
  by (auto simp: chair_inv_def generator_worker_step_def in_chair_def past_admission_def
      split: gen_pc.splits if_splits)

lemma step_chair_inv:
  assumes "chair_inv s" and "step e s = Some (l, s')"
  shows "chair_inv s'"
proof (cases e)
  case (Barber now)
  with assms show ?thesis by (simp add: step_def barber_step_chair_inv)
next
  case (Customer i)
  with assms show ?thesis by (simp add: step_def customer_step_chair_inv)
next
  case (Generator now)
  with assms show ?thesis by (simp add: step_def generator_step_chair_inv)
next
  case (KeySpeed n)
  with assms show ?thesis
    by (auto simp: step_def chair_inv_def in_chair_def split: if_splits)
next
  case KeyQuit
  with assms show ?thesis
    by (auto simp: step_def chair_inv_def in_chair_def split: if_splits)
qed

lemma init_chair_inv: "chair_inv (init_sys cap ct t0)"
  by (simp add: chair_inv_def init_sys_def ShopState_init_def chair_of_def in_chair_def
      past_admission_def)

lemma reachable_chair_inv:
  assumes "run es (init_sys cap ct t0) = Some (ls, s)"
  shows "chair_inv s"
  using assms init_chair_inv
  by (rule run_invariant[where P = "\<lambda>tr. chair_inv" and pre = "[]"]) (rule step_chair_inv)

lemma step_cap_inv:
  assumes "cap_inv cap s" and "step e s = Some (l, s')"
  shows "cap_inv cap s'"
proof (cases e)
  case (Barber now)
  with assms show ?thesis
    by (auto simp: step_def cap_inv_def barber_worker_step_def barber_seat_def
          barber_idle_def barber_finish_def
        split: barber_pc.splits list.splits if_splits)
next
  case (Customer i)
  with assms show ?thesis
    by (auto simp: step_def cap_inv_def customer_worker_step_def customer_enter_def
        split: cust_pc.splits if_splits prod.splits)
next
  case (Generator now)
  with assms show ?thesis
    by (auto simp: step_def cap_inv_def generator_worker_step_def
        split: gen_pc.splits if_splits)
next
  case (KeySpeed n)
  with assms show ?thesis by (auto simp: step_def cap_inv_def split: if_splits)
next
  case KeyQuit
  with assms show ?thesis by (auto simp: step_def cap_inv_def split: if_splits)
qed

lemma reachable_cap_inv:
  assumes "0 \<le> cap" and "run es (init_sys cap ct t0) = Some (ls, s)"
  shows "cap_inv cap s"
proof -
  have "cap_inv cap (init_sys cap ct t0)"
    using assms(1) by (simp add: cap_inv_def init_sys_def ShopState_init_def)
  with assms(2) show ?thesis
    by (rule run_invariant[where P = "\<lambda>tr. cap_inv cap" and pre = "[]"]) (rule step_cap_inv)
qed

text \<open>The queue is what has been admitted and not yet seated, in order.\<close>

lemma reachable_queue:
  assumes "run es (init_sys cap ct t0) = Some (ls, s)"
  shows "seated_ids ls @ waiting (shop s) = admitted_ids ls"
proof -
  let ?P = "\<lambda>tr s. seated_ids tr @ waiting (shop s) = admitted_ids tr"
  have "?P ([] @ ls) s"
  proof (rule run_invariant[OF assms, where P = ?P])
    show "?P [] (init_sys cap ct t0)"
      by (simp add: init_sys_def ShopState_init_def)
  next
    fix tr s e l s'
    assume inv: "?P tr s" and st: "step e s = Some (l, s')"
    have "seated_ids (tr @ [l]) @ waiting (shop s')
        = seated_ids tr @ (seated_ids [l] @ waiting (shop s'))"
      by (simp add: seated_ids_append)
    also have "\<dots> = seated_ids tr @ (waiting (shop s) @ admitted_ids [l])"
      by (simp only: step_effect(1)[OF st])
    also have "\<dots> = admitted_ids tr @ admitted_ids [l]"
      using inv by (metis append_assoc)
    finally show "?P (tr @ [l]) s'" by (simp add: admitted_ids_append)
  qed
  then show ?thesis by simp
qed

text \<open>The rejections are what \<open>left\<close> counts.\<close>

lemma reachable_left:
  assumes "run es (init_sys cap ct t0) = Some (ls, s)"
  shows "left (shop s) = int (length (rejected_ids ls))"
proof -
  let ?P = "\<lambda>tr s. left (shop s) = int (length (rejected_ids tr))"
  have "?P ([] @ ls) s"
  proof (rule run_invariant[OF assms, where P = ?P])
    show "?P [] (init_sys cap ct t0)"
      by (simp add: init_sys_def ShopState_init_def)
  next
    fix tr s e l s'
    assume "?P tr s" and "step e s = Some (l, s')"
    then show "?P (tr @ [l]) s'"
      by (simp add: step_effect(2) rejected_ids_append)
  qed
  then show ?thesis by simp
qed

text \<open>While nobody is seated the queue never shrinks, so a rejection leaves it full.\<close>

lemma reachable_full_after_reject:
  assumes "run es (init_sys cap ct t0) = Some (ls, s)"
    and "seated_ids ls = []" and "rejected_ids ls \<noteq> []"
  shows "cap \<le> int (length (waiting (shop s)))"
proof -
  let ?P = "\<lambda>tr s. capacity (shop s) = cap \<and>
     (seated_ids tr = [] \<longrightarrow> rejected_ids tr \<noteq> [] \<longrightarrow> cap \<le> int (length (waiting (shop s))))"
  have "?P ([] @ ls) s"
  proof (rule run_invariant[OF assms(1), where P = ?P])
    show "?P [] (init_sys cap ct t0)"
      by (simp add: init_sys_def ShopState_init_def)
  next
    fix tr s e l s'
    assume inv: "?P tr s" and st: "step e s = Some (l, s')"
    note eff = step_effect[OF st]
    have c: "capacity (shop s') = cap" using inv eff(4) by simp
    have "cap \<le> int (length (waiting (shop s')))"
      if a: "seated_ids (tr @ [l]) = []" and b: "rejected_ids (tr @ [l]) \<noteq> []"
    proof -
      from a have tr0: "seated_ids tr = []" and l0: "seated_ids [l] = []"
        by (simp_all add: seated_ids_append)
      from eff(1) l0 have w: "waiting (shop s') = waiting (shop s) @ admitted_ids [l]" by simp
      show ?thesis
      proof (cases "rejected_ids [l] = []")
        case True
        with b have "rejected_ids tr \<noteq> []" by (simp add: rejected_ids_append)
        with inv tr0 have "cap \<le> int (length (waiting (shop s)))" by simp
        with w show ?thesis by simp
      next
        case False
        from eff(3)[OF this] inv show ?thesis by simp
      qed
    qed
    with c show "?P (tr @ [l]) s'" by blast
  qed
  with assms(2,3) show ?thesis by simp
qed

text \<open>Every customer past the admission section was admitted or rejected there.\<close>

lemma step_past_admission:
  assumes "step e s = Some (l, s')"
  shows "past_admission s' =
         past_admission s + length (admitted_ids [l]) + length (rejected_ids [l])"
proof (cases e)
  case (Barber now)
  with assms show ?thesis
    by (auto simp: step_def barber_worker_step_def barber_seat_def
        split: barber_pc.splits list.splits if_splits)
next
  case (Customer i)
  with assms have cs: "customer_worker_step i s = Some (l, s')" by (simp add: step_def)
  then have i: "i < length (customer_ts s)"
    by (simp add: customer_worker_step_def split: if_splits)
  obtain cid pc where t: "customer_ts s ! i = (cid, pc)" by (cases "customer_ts s ! i")
  show ?thesis
  proof (cases "pc = CStart")
    case True
    with cs i t show ?thesis
      by (auto simp: customer_worker_step_def customer_enter_def
            past_admission_set_pc_gain split: if_splits)
  next
    case False
    with cs i t show ?thesis
      by (cases pc)
         (auto simp: customer_worker_step_def past_admission_set_pc_same split: if_splits)
  qed
next
  case (Generator now)
  with assms show ?thesis
    by (auto simp: step_def generator_worker_step_def past_admission_def
        split: gen_pc.splits if_splits)
next
  case (KeySpeed n)
  with assms show ?thesis by (auto simp: step_def split: if_splits)
next
  case KeyQuit
  with assms show ?thesis by (auto simp: step_def split: if_splits)
qed

lemma reachable_past_admission:
  assumes "run es (init_sys cap ct t0) = Some (ls, s)"
  shows "past_admission s = length (admitted_ids ls) + length (rejected_ids ls)"
proof -
  let ?P = "\<lambda>tr s. past_admission s = length (admitted_ids tr) + length (rejected_ids tr)"
  have "?P ([] @ ls) s"
  proof (rule run_invariant[OF assms, where P = ?P])
    show "?P [] (init_sys cap ct t0)"
      by (simp add: init_sys_def past_admission_def)
  next
    fix tr s e l s'
    assume "?P tr s" and "step e s = Some (l, s')"
    then show "?P (tr @ [l]) s'"
      by (simp add: step_past_admission admitted_ids_append rejected_ids_append)
  qed
  then show ?thesis by simp
qed

subsection \<open>Customer ids\<close>

lemma ids_inv_frame:
  assumes "ids_inv tr s" and "customer_ts s' = customer_ts s" and "counter s' = counter s"
    and "admitted_ids [l] = []"
  shows "ids_inv (tr @ [l]) s'"
  using assms by (simp add: ids_inv_def admitted_ids_append)

lemma barber_step_frame:
  assumes "barber_worker_step now s = Some (l, s')"
  shows "customer_ts s' = customer_ts s" and "counter s' = counter s"
    and "admitted_ids [l] = []"
  using assms
  by (auto simp: barber_worker_step_def barber_seat_def
      split: barber_pc.splits list.splits if_splits)

lemma map_fst_set_pc:
  "j < length xs \<Longrightarrow> map fst (xs[j := (fst (xs ! j), pc)]) = map fst xs"
  by (simp add: map_update list_update_same_conv)

lemma customer_step_shape:
  assumes "customer_worker_step j s = Some (l, s')"
  obtains pc' where "j < length (customer_ts s)"
    and "customer_ts s' = (customer_ts s)[j := (fst (customer_ts s ! j), pc')]"
    and "pc' \<noteq> CStart" and "counter s' = counter s"
    and "admitted_ids [l] = [] \<or>
         (admitted_ids [l] = [fst (customer_ts s ! j)] \<and> snd (customer_ts s ! j) = CStart)"
proof -
  from assms have j: "j < length (customer_ts s)"
    by (simp add: customer_worker_step_def split: if_splits)
  obtain cid pc where t: "customer_ts s ! j = (cid, pc)" by (cases "customer_ts s ! j")
  from assms j t have "\<exists>pc'. customer_ts s' = (customer_ts s)[j := (cid, pc')]
      \<and> pc' \<noteq> CStart \<and> counter s' = counter s
      \<and> (admitted_ids [l] = [] \<or> (admitted_ids [l] = [cid] \<and> pc = CStart))"
    by (cases pc)
       (auto simp: customer_worker_step_def customer_enter_def set_pc_def split: if_splits)
  with j t that show thesis by auto
qed

lemma customer_step_ids_inv:
  assumes inv: "ids_inv tr s" and st: "customer_worker_step j s = Some (l, s')"
  shows "ids_inv (tr @ [l]) s'"
proof -
  from st obtain pc' where j: "j < length (customer_ts s)"
    and ts: "customer_ts s' = (customer_ts s)[j := (fst (customer_ts s ! j), pc')]"
    and pc': "pc' \<noteq> CStart" and cnt: "counter s' = counter s"
    and adm: "admitted_ids [l] = [] \<or>
         (admitted_ids [l] = [fst (customer_ts s ! j)] \<and> snd (customer_ts s ! j) = CStart)"
    by (rule customer_step_shape)
  let ?c = "fst (customer_ts s ! j)"
  have mem: "customer_ts s ! j \<in> set (customer_ts s)" using j by simp
  have sub: "set (customer_ts s') \<subseteq> insert (?c, pc') (set (customer_ts s))"
    unfolding ts by (rule set_update_subset_insert)
  have fsts: "map fst (customer_ts s') = map fst (customer_ts s)"
    unfolding ts using j by (rule map_fst_set_pc)
  have others: "snd t \<noteq> CStart" if "t \<in> set (customer_ts s')" "fst t = ?c" for t
  proof -
    from that(1) obtain k where k: "k < length (customer_ts s')" "customer_ts s' ! k = t"
      by (auto simp: in_set_conv_nth)
    then have "map fst (customer_ts s) ! k = ?c" using that(2) fsts
      by (metis length_map nth_map)
    moreover have "map fst (customer_ts s) ! j = ?c" using j by simp
    moreover have "distinct (map fst (customer_ts s))" using inv by (simp add: ids_inv_def)
    moreover have "k < length (map fst (customer_ts s))" using k(1) ts by simp
    moreover have "j < length (map fst (customer_ts s))" using j by simp
    ultimately have "k = j" by (metis nth_eq_iff_index_eq)
    with k ts j have "t = (?c, pc')" by simp
    with pc' show ?thesis by simp
  qed
  have 1: "\<forall>t \<in> set (customer_ts s'). fst t < counter s'"
    using inv sub mem cnt by (auto simp: ids_inv_def)
  have lt: "?c < counter s" using inv mem by (simp add: ids_inv_def)
  have 2: "\<forall>c \<in> set (admitted_ids (tr @ [l])). c < counter s'"
    using inv adm lt cnt by (auto simp: ids_inv_def admitted_ids_append)
  have 3: "distinct (map fst (customer_ts s'))"
    using inv fsts by (simp add: ids_inv_def)
  have 4: "distinct (admitted_ids (tr @ [l]))"
    using inv adm mem by (auto simp: ids_inv_def admitted_ids_append)
  have 5: "\<forall>t \<in> set (customer_ts s'). fst t \<in> set (admitted_ids (tr @ [l])) \<longrightarrow> snd t \<noteq> CStart"
  proof (intro ballI impI)
    fix t assume t: "t \<in> set (customer_ts s')" and a: "fst t \<in> set (admitted_ids (tr @ [l]))"
    show "snd t \<noteq> CStart"
    proof (cases "fst t = ?c")
      case True
      with t show ?thesis by (rule others)
    next
      case False
      with t sub have t': "t \<in> set (customer_ts s)" by auto
      from a adm False have "fst t \<in> set (admitted_ids tr)"
        by (auto simp: admitted_ids_append)
      with inv t' show ?thesis by (simp add: ids_inv_def)
    qed
  qed
  from 1 2 3 4 5 show ?thesis unfolding ids_inv_def by blast
qed

lemma generator_step_ids_inv:
  assumes inv: "ids_inv tr s" and st: "generator_worker_step now s = Some (l, s')"
  shows "ids_inv (tr @ [l]) s'"
proof -
  from st have l: "l = Silent"
    by (auto simp: generator_worker_step_def split: gen_pc.splits if_splits)
  from st consider
      "customer_ts s' = customer_ts s" "counter s' = counter s"
    | "customer_ts s' = customer_ts s @ [(counter s, CStart)]" "counter s' = counter s + 1"
    by (auto simp: generator_worker_step_def split: gen_pc.splits if_splits)
  then show ?thesis
  proof cases
    case 1
    with inv l show ?thesis by (simp add: ids_inv_frame)
  next
    case 2
    with inv l show ?thesis
      by (fastforce simp: ids_inv_def admitted_ids_append)
  qed
qed

lemma step_ids_inv:
  assumes "ids_inv tr s" and "step e s = Some (l, s')"
  shows "ids_inv (tr @ [l]) s'"
proof (cases e)
  case (Barber now)
  with assms(2) have "barber_worker_step now s = Some (l, s')" by (simp add: step_def)
  from ids_inv_frame[OF assms(1) barber_step_frame[OF this]] show ?thesis .
next
  case (Customer j)
  with assms show ?thesis by (simp add: step_def customer_step_ids_inv)
next
  case (Generator now)
  with assms show ?thesis by (simp add: step_def generator_step_ids_inv)
next
  case (KeySpeed n)
  with assms show ?thesis by (auto simp: step_def ids_inv_frame split: if_splits)
next
  case KeyQuit
  with assms show ?thesis by (auto simp: step_def ids_inv_frame split: if_splits)
qed

lemma reachable_distinct_admitted:
  assumes "run es (init_sys cap ct t0) = Some (ls, s)"
  shows "distinct (admitted_ids ls)"
proof -
  have "ids_inv ([] @ ls) s"
  proof (rule run_invariant[OF assms, where P = ids_inv])
    show "ids_inv [] (init_sys cap ct t0)" by (simp add: ids_inv_def init_sys_def)
  qed (rule step_ids_inv)
  then show ?thesis by (simp add: ids_inv_def)
qed

subsection \<open>Evaluation and terminated threads\<close>

lemmas exec_defs =
  init_sys_def ShopState_init_def step_def barber_worker_step_def barber_seat_def
  barber_idle_def barber_finish_def customer_worker_step_def customer_enter_def set_pc_def
  generator_worker_step_def interval_for_def speed_to_interval_def

lemma dom_speed_to_interval: "dom speed_to_interval = {1, 2, 3, 4, 5}"
  by (auto simp: speed_to_interval_def split: if_splits)


lemma step_done_stays:
  assumes "i < length (customer_ts s)" and "customer_ts s ! i = (cid, CDone)"
    and "step e s = Some (l, s')"
  shows "i < length (customer_ts s') \<and> customer_ts s' ! i = (cid, CDone) \<and> e \<noteq> Customer i"
proof (cases e)
  case (Barber now)
  with assms show ?thesis
    by (auto simp: step_def barber_worker_step_def barber_seat_def
        split: barber_pc.splits list.splits if_splits)
next
  case (Customer j)
  with assms have cs: "customer_worker_step j s = Some (l, s')" by (simp add: step_def)
  then have j: "j < length (customer_ts s)"
    by (simp add: customer_worker_step_def split: if_splits)
  from cs assms(1,2) have ne: "j \<noteq> i"
    by (auto simp: customer_worker_step_def split: if_splits)
  obtain c pc where t: "customer_ts s ! j = (c, pc)" by (cases "customer_ts s ! j")
  from cs j t assms(1,2) ne have "i < length (customer_ts s') \<and> customer_ts s' ! i = (cid, CDone)"
    by (cases pc)
       (auto simp: customer_worker_step_def customer_enter_def set_pc_def split: if_splits)
  with ne Customer show ?thesis by simp
next
  case (Generator now)
  with assms show ?thesis
    by (auto simp: step_def generator_worker_step_def nth_append
        split: gen_pc.splits if_splits)
next
  case (KeySpeed n)
  with assms show ?thesis by (auto simp: step_def split: if_splits)
next
  case KeyQuit
  with assms show ?thesis by (auto simp: step_def split: if_splits)
qed

lemma run_done_stays:
  "i < length (customer_ts s) \<Longrightarrow> customer_ts s ! i = (cid, CDone) \<Longrightarrow>
   run es s = Some (ls, s') \<Longrightarrow>
   customer_ts s' ! i = (cid, CDone) \<and> Customer i \<notin> set es"
proof (induction es arbitrary: s ls)
  case Nil
  then show ?case by simp
next
  case (Cons e es)
  from Cons.prems(3) obtain l s1 ls1 where
    st: "step e s = Some (l, s1)" and r: "run es s1 = Some (ls1, s')"
    by (auto split: option.splits prod.splits)
  from step_done_stays[OF Cons.prems(1,2) st] Cons.IH[OF _ _ r]
  show ?case by auto
qed

subsection \<open>The order of service, read off the states\<close>

lemma step_joined_queue:
  assumes "step e s = Some (l, s')"
  shows "joined_queue s s' = admitted_ids [l]"
proof -
  note q = step_effect(1)[OF assms]
  show ?thesis
  proof (cases l)
    case (Seated c)
    with q have "waiting (shop s) = c # waiting (shop s')" by simp
    with Seated show ?thesis by (simp add: joined_queue_def)
  qed (use q in \<open>simp_all add: joined_queue_def\<close>)
qed

lemma barber_step_chair:
  assumes "chair_inv s" and "barber_worker_step now s = Some (l, s')"
  shows "became_current s s' = seated_ids [l]"
    and "chair_list s @ became_current s s' = counted_served s s' @ chair_list s'"
  using assms
  by (auto simp: chair_inv_def chair_of_def barber_worker_step_def barber_seat_def
        barber_idle_def barber_finish_def became_current_def counted_served_def chair_list_def
      split: barber_pc.splits list.splits if_splits option.splits)

lemma customer_step_chair:
  assumes "customer_worker_step i s = Some (l, s')"
  shows "current_customer (shop s') = current_customer (shop s)"
    and "served (shop s') = served (shop s)" and "seated_ids [l] = []"
  using assms
  by (auto simp: customer_worker_step_def customer_enter_def
      split: cust_pc.splits if_splits prod.splits)

lemma unchanged_chair:
  assumes "current_customer (shop s') = current_customer (shop s)"
    and "served (shop s') = served (shop s)"
  shows "became_current s s' = []"
    and "chair_list s @ became_current s s' = counted_served s s' @ chair_list s'"
  using assms
  by (simp_all add: became_current_def counted_served_def chair_list_def split: option.splits)

lemma step_chair:
  assumes "chair_inv s" and "step e s = Some (l, s')"
  shows "became_current s s' = seated_ids [l]
       \<and> chair_list s @ became_current s s' = counted_served s s' @ chair_list s'"
proof (cases e)
  case (Barber now)
  with assms(2) have "barber_worker_step now s = Some (l, s')" by (simp add: step_def)
  from barber_step_chair[OF assms(1) this] show ?thesis by simp
next
  case (Customer i)
  with assms(2) have "customer_worker_step i s = Some (l, s')" by (simp add: step_def)
  from customer_step_chair[OF this] unchanged_chair[of s' s] show ?thesis by simp
next
  case (Generator now)
  with assms(2) have "generator_worker_step now s = Some (l, s')" by (simp add: step_def)
  from generator_step_effect[OF this] unchanged_chair[of s' s] show ?thesis by simp
next
  case (KeySpeed n)
  with assms(2) unchanged_chair[of s' s] show ?thesis
    by (auto simp: step_def split: if_splits)
next
  case KeyQuit
  with assms(2) unchanged_chair[of s' s] show ?thesis
    by (auto simp: step_def split: if_splits)
qed

lemma run_observe_joined:
  "run es s = Some (ls, s') \<Longrightarrow> observe joined_queue es s = admitted_ids ls"
proof (induction es arbitrary: s ls)
  case Nil
  then show ?case by simp
next
  case (Cons e es)
  from Cons.prems obtain l s1 ls1 where
    st: "step e s = Some (l, s1)" and r: "run es s1 = Some (ls1, s')" and ls: "ls = l # ls1"
    by (auto split: option.splits prod.splits)
  have "admitted_ids (l # ls1) = admitted_ids [l] @ admitted_ids ls1"
    using admitted_ids_append[of "[l]" ls1] by simp
  with st ls Cons.IH[OF r] step_joined_queue[OF st] show ?case by simp
qed

lemma run_observe_chair:
  "chair_inv s \<Longrightarrow> run es s = Some (ls, s') \<Longrightarrow>
   observe became_current es s = seated_ids ls
   \<and> chair_list s @ observe became_current es s = observe counted_served es s @ chair_list s'"
proof (induction es arbitrary: s ls)
  case Nil
  then show ?case by simp
next
  case (Cons e es)
  from Cons.prems(2) obtain l s1 ls1 where
    st: "step e s = Some (l, s1)" and r: "run es s1 = Some (ls1, s')" and ls: "ls = l # ls1"
    by (auto split: option.splits prod.splits)
  from step_chair_inv[OF Cons.prems(1) st] have inv1: "chair_inv s1" .
  note one = step_chair[OF Cons.prems(1) st]
  note rest = Cons.IH[OF inv1 r]
  have sp: "seated_ids (l # ls1) = seated_ids [l] @ seated_ids ls1"
    using seated_ids_append[of "[l]" ls1] by simp
  have a: "observe became_current (e # es) s = seated_ids ls"
    using st ls one rest sp by simp
  have "chair_list s @ observe became_current (e # es) s
      = (chair_list s @ became_current s s1) @ observe became_current es s1"
    using st by simp
  also have "\<dots> = counted_served s s1 @ (chair_list s1 @ observe became_current es s1)"
    by (simp only: conjunct2[OF one] append_assoc)
  also have "\<dots> = counted_served s s1 @ (observe counted_served es s1 @ chair_list s')"
    by (simp only: conjunct2[OF rest])
  also have "\<dots> = observe counted_served (e # es) s @ chair_list s'"
    using st by simp
  finally show ?case using a by simp
qed

lemma first_index_prefix:
  "first_index xs a = Some k \<Longrightarrow> first_index (xs @ ys) a = Some k"
  using first_index_take[of "length xs" "xs @ ys" a k] by simp

lemma seated_step_sets_current:
  assumes "step e s0 = Some (Seated c, s1)"
  shows "current_customer (shop s1) = Some c \<and> barber_status (shop s1) = ''cutting''
       \<and> waiting (shop s0) = c # waiting (shop s1) \<and> barber_t s1 = BCut c"
proof (cases e)
  case (Barber now)
  with assms show ?thesis
    by (auto simp: step_def barber_worker_step_def barber_seat_def
        split: barber_pc.splits list.splits if_splits)
next
  case (Customer i)
  with assms show ?thesis
    by (auto simp: step_def customer_worker_step_def customer_enter_def
        split: cust_pc.splits if_splits prod.splits)
next
  case (Generator now)
  with assms show ?thesis
    by (auto simp: step_def generator_worker_step_def split: gen_pc.splits if_splits)
next
  case (KeySpeed n)
  with assms show ?thesis by (auto simp: step_def split: if_splits)
next
  case KeyQuit
  with assms show ?thesis by (auto simp: step_def split: if_splits)
qed

subsection \<open>The claims\<close>

text \<open>
  C9: a freshly constructed shop state, for any capacity and cut duration, has an empty
  waiting queue, \<open>served = 0\<close>, \<open>left = 0\<close>, the status sleeping, no current customer, no
  cut start time and arrival speed 3, which has two of the five speed levels below it
  and two above it.
\<close>
theorem ShopState_init_fields:
  "ShopState_init cap ct =
     \<lparr> capacity = cap, cut_time = ct, arrival_speed = 3, waiting = [], served = 0,
       left = 0, barber_status = ''sleeping'', current_customer = None,
       haircut_start_time = None \<rparr>
   \<and> dom speed_to_interval = {1, 2, 3, 4, 5}
   \<and> card {k \<in> dom speed_to_interval. k < arrival_speed (ShopState_init cap ct)} = 2
   \<and> card {k \<in> dom speed_to_interval. arrival_speed (ShopState_init cap ct) < k} = 2"
proof -
  have sp: "arrival_speed (ShopState_init cap ct) = 3" by (simp add: ShopState_init_def)
  have lo: "{k \<in> {1, 2, 3, 4, 5 :: int}. k < 3} = {1, 2}" by auto
  have hi: "{k \<in> {1, 2, 3, 4, 5 :: int}. 3 < k} = {4, 5}" by auto
  have "card {k \<in> dom speed_to_interval. k < arrival_speed (ShopState_init cap ct)} = 2"
    by (simp only: sp dom_speed_to_interval lo) simp
  moreover
  have "card {k \<in> dom speed_to_interval. arrival_speed (ShopState_init cap ct) < k} = 2"
    by (simp only: sp dom_speed_to_interval hi) simp
  ultimately show ?thesis
    by (simp add: ShopState_init_def dom_speed_to_interval)
qed

text \<open>
  C1: in every state reached by a schedule from the initial state of a shop created with
  a non-negative capacity, the length of the waiting queue is between 0 and the
  capacity.
\<close>
theorem waiting_within_capacity:
  assumes "0 \<le> cap" and "run es (init_sys cap ct t0) = Some (ls, s)"
  shows "0 \<le> int (length (waiting (shop s)))
       \<and> int (length (waiting (shop s))) \<le> capacity (shop s)
       \<and> capacity (shop s) = cap"
  using reachable_cap_inv[OF assms] by (simp add: cap_inv_def)

theorem waiting_within_capacity_witness:
  "(0::int) \<le> 1 \<and>
   (\<exists>ls s. run [Generator 0, Generator 0, Generator 0, Generator 1, Generator 1,
                Generator 1, Customer 0, Customer 1] (init_sys 1 1 0) = Some (ls, s)
      \<and> left (shop s) = 1
      \<and> int (length (waiting (shop s))) \<le> capacity (shop s) \<and> capacity (shop s) = 1)"
proof -
  obtain ls s where r: "run [Generator 0, Generator 0, Generator 0, Generator 1, Generator 1,
                Generator 1, Customer 0, Customer 1] (init_sys 1 1 0) = Some (ls, s)"
    and l: "left (shop s) = 1"
    by (simp add: exec_defs)
  have "(0::int) \<le> 1" by simp
  from waiting_within_capacity[OF this r] r l show ?thesis by auto
qed

text \<open>
  C2: a customer at the locked section is admitted (appended to the queue) if the queue
  is shorter than the capacity and otherwise rejected (\<open>left\<close> incremented, thread
  done); and in any schedule in which the barber seats nobody and \<open>capacity + 1\<close>
  customers were spawned and have all passed the section, exactly \<open>capacity\<close> were
  admitted and one was rejected, whatever the order of the steps.
\<close>
theorem admission_locked_check:
  assumes "0 \<le> cap" and "run es (init_sys cap ct t0) = Some (ls, s)"
    and "seated_ids ls = []"
    and "int (length (customer_ts s)) = cap + 1"
    and "past_admission s = length (customer_ts s)"
  shows "int (length (admitted_ids ls)) = cap \<and> length (rejected_ids ls) = 1
       \<and> waiting (shop s) = admitted_ids ls \<and> left (shop s) = 1
       \<and> (\<forall>s0 i cid. i < length (customer_ts s0) \<and> customer_ts s0 ! i = (cid, CStart) \<longrightarrow>
            step (Customer i) s0 =
              (if int (length (waiting (shop s0))) < capacity (shop s0)
               then Some (Admitted cid,
                      s0\<lparr>shop := (shop s0)\<lparr>waiting := waiting (shop s0) @ [cid]\<rparr>,
                         customer_ts := (customer_ts s0)[i := (cid, CAdmitted)]\<rparr>)
               else Some (Rejected cid,
                      s0\<lparr>shop := (shop s0)\<lparr>left := left (shop s0) + 1\<rparr>,
                         customer_ts := (customer_ts s0)[i := (cid, CDone)]\<rparr>)))"
proof -
  from reachable_queue[OF assms(2)] assms(3)
  have w: "waiting (shop s) = admitted_ids ls" by simp
  from reachable_cap_inv[OF assms(1,2)]
  have le: "int (length (waiting (shop s))) \<le> cap" by (simp add: cap_inv_def)
  from reachable_past_admission[OF assms(2)] assms(4,5)
  have tot: "int (length (admitted_ids ls)) + int (length (rejected_ids ls)) = cap + 1"
    by simp
  from tot le w have "rejected_ids ls \<noteq> []" by auto
  from reachable_full_after_reject[OF assms(2,3) this] le
  have "int (length (waiting (shop s))) = cap" by simp
  with w tot have a: "int (length (admitted_ids ls)) = cap" and b: "length (rejected_ids ls) = 1"
    by simp_all
  from reachable_left[OF assms(2)] b have c: "left (shop s) = 1" by simp
  have d: "step (Customer i) s0 =
              (if int (length (waiting (shop s0))) < capacity (shop s0)
               then Some (Admitted cid,
                      s0\<lparr>shop := (shop s0)\<lparr>waiting := waiting (shop s0) @ [cid]\<rparr>,
                         customer_ts := (customer_ts s0)[i := (cid, CAdmitted)]\<rparr>)
               else Some (Rejected cid,
                      s0\<lparr>shop := (shop s0)\<lparr>left := left (shop s0) + 1\<rparr>,
                         customer_ts := (customer_ts s0)[i := (cid, CDone)]\<rparr>))"
    if "i < length (customer_ts s0)" and "customer_ts s0 ! i = (cid, CStart)" for s0 i cid
    using that by (simp add: step_def customer_worker_step_def customer_enter_def set_pc_def)
  from a b w c d show ?thesis by blast
qed

theorem admission_locked_check_witness:
  "(0::int) \<le> 1 \<and>
   (\<exists>ls s. run [Generator 0, Generator 0, Generator 0, Generator 1, Generator 1,
                Generator 1, Customer 1, Customer 0] (init_sys 1 1 0) = Some (ls, s)
      \<and> seated_ids ls = [] \<and> int (length (customer_ts s)) = 1 + 1
      \<and> past_admission s = length (customer_ts s)
      \<and> admitted_ids ls = [2] \<and> rejected_ids ls = [1]
      \<and> int (length (admitted_ids ls)) = 1 \<and> length (rejected_ids ls) = 1
      \<and> waiting (shop s) = admitted_ids ls \<and> left (shop s) = 1)"
proof -
  obtain ls s where r: "run [Generator 0, Generator 0, Generator 0, Generator 1, Generator 1,
                Generator 1, Customer 1, Customer 0] (init_sys 1 1 0) = Some (ls, s)"
    and h: "seated_ids ls = []" "int (length (customer_ts s)) = 1 + 1"
       "past_admission s = length (customer_ts s)"
    and x: "admitted_ids ls = [2]" "rejected_ids ls = [1]"
    by (simp add: exec_defs past_admission_def)
  have "(0::int) \<le> 1" by simp
  from admission_locked_check[OF this r h] r h x show ?thesis by auto
qed




text \<open>
  C4, as amended: in every reachable state a current customer implies the status
  cutting; the status cutting without a current customer occurs only while the queue is
  not empty; and while the barber is in a cut both are set, to the customer it dequeued.
\<close>
theorem current_customer_cutting:
  assumes "run es (init_sys cap ct t0) = Some (ls, s)"
  shows "(current_customer (shop s) \<noteq> None \<longrightarrow> barber_status (shop s) = ''cutting'')
       \<and> (barber_status (shop s) = ''cutting'' \<longrightarrow>
            current_customer (shop s) \<noteq> None \<or> waiting (shop s) \<noteq> [])
       \<and> (\<forall>cid. barber_t s = BCut cid \<longrightarrow>
            current_customer (shop s) = Some cid \<and> barber_status (shop s) = ''cutting'')"
  using reachable_chair_inv[OF assms]
  by (auto simp: chair_inv_def chair_of_def)

theorem current_customer_cutting_witness:
  "\<exists>ls s. run [Generator 0, Generator 0, Generator 0, Customer 0, Customer 0,
               Barber 0, Barber 0, Barber 5] (init_sys 1 1 0) = Some (ls, s)
     \<and> barber_t s = BCut 1 \<and> current_customer (shop s) = Some 1
     \<and> barber_status (shop s) = ''cutting''"
proof -
  obtain ls s where r: "run [Generator 0, Generator 0, Generator 0, Customer 0, Customer 0,
               Barber 0, Barber 0, Barber 5] (init_sys 1 1 0) = Some (ls, s)"
    and h: "barber_t s = BCut 1"
    by (simp add: exec_defs)
  from current_customer_cutting[OF r] r h show ?thesis by auto
qed

text \<open>
  C4 as stated fails: after a completion that finds the second customer waiting, the
  status is cutting and there is no current customer.
\<close>

theorem cutting_without_customer_counterexample:
  "map_option
     (\<lambda>(ls, s). (barber_status (shop s), current_customer (shop s), waiting (shop s)))
     (run [Generator 0, Generator 0, Generator 0, Generator 1, Generator 1, Generator 1,
           Customer 0, Customer 0, Customer 1, Barber 0, Barber 0, Barber 5, Barber 7]
        (init_sys 2 1 0))
   = Some (''cutting'', None, [2])"
  by (simp add: exec_defs)

text \<open>
  C5: customers are served in the order of their admission. Along every schedule, the
  customers that became the current customer are, in order, the first of the customers
  appended to the queue, and the customers counted in \<open>served\<close> are, in order, those
  that became the current customer, but for the one still in the chair; no id is
  appended twice. So if \<open>a\<close> was appended before \<open>b\<close> and both were served, \<open>a\<close> became the
  current customer, and was served, before \<open>b\<close>. A seating step makes the customer it
  takes from the head of the queue the current customer.
\<close>
theorem served_in_admission_order:
  assumes "run es (init_sys cap ct t0) = Some (ls, s)"
    and "first_index (observe joined_queue es (init_sys cap ct t0)) a = Some i"
    and "first_index (observe joined_queue es (init_sys cap ct t0)) b = Some j"
    and "i < j"
    and "first_index (observe counted_served es (init_sys cap ct t0)) a = Some i'"
    and "first_index (observe counted_served es (init_sys cap ct t0)) b = Some j'"
  shows "i' < j' \<and> i' = i \<and> j' = j
       \<and> first_index (observe became_current es (init_sys cap ct t0)) a = Some i'
       \<and> first_index (observe became_current es (init_sys cap ct t0)) b = Some j'
       \<and> (\<forall>p q. first_index (observe became_current es (init_sys cap ct t0)) a = Some p
                \<and> first_index (observe became_current es (init_sys cap ct t0)) b = Some q
             \<longrightarrow> p < q)
       \<and> observe counted_served es (init_sys cap ct t0) @ chair_list s
           = observe became_current es (init_sys cap ct t0)
       \<and> observe became_current es (init_sys cap ct t0) @ waiting (shop s)
           = observe joined_queue es (init_sys cap ct t0)
       \<and> distinct (observe joined_queue es (init_sys cap ct t0))
       \<and> observe joined_queue es (init_sys cap ct t0) = admitted_ids ls
       \<and> observe became_current es (init_sys cap ct t0) = seated_ids ls
       \<and> (\<forall>e s0 c s1. step e s0 = Some (Seated c, s1) \<longrightarrow>
             current_customer (shop s1) = Some c \<and> waiting (shop s0) = c # waiting (shop s1))"
proof -
  let ?i = "init_sys cap ct t0"
  let ?Q = "observe joined_queue es ?i"
  let ?C = "observe became_current es ?i"
  let ?S = "observe counted_served es ?i"
  have q: "?Q = admitted_ids ls" using assms(1) by (rule run_observe_joined)
  note oc = run_observe_chair[OF init_chair_inv assms(1)]
  have c: "?C = seated_ids ls" by (rule conjunct1[OF oc])
  have sc0: "chair_list ?i @ ?C = ?S @ chair_list s" by (rule conjunct2[OF oc])
  have "chair_list ?i = []"
    by (simp add: chair_list_def init_sys_def ShopState_init_def)
  with sc0 have sc: "?S @ chair_list s = ?C" by simp
  from reachable_queue[OF assms(1)] q c have cq: "?C @ waiting (shop s) = ?Q" by simp
  have d: "distinct ?Q" using reachable_distinct_admitted[OF assms(1)] q by simp
  have up: "first_index ?Q x = Some k" if "first_index ?C x = Some k" for x k
    using first_index_prefix[OF that, of "waiting (shop s)"] cq by simp
  have order: "p < q" if "first_index ?C a = Some p" "first_index ?C b = Some q" for p q
    using up[OF that(1)] up[OF that(2)] assms(2,3,4) by simp
  have ca: "first_index ?C a = Some i'"
    using first_index_prefix[OF assms(5), of "chair_list s"] sc by simp
  have cb: "first_index ?C b = Some j'"
    using first_index_prefix[OF assms(6), of "chair_list s"] sc by simp
  from up[OF ca] assms(2) have ii: "i' = i" by simp
  from up[OF cb] assms(3) have jj: "j' = j" by simp
  have link: "\<forall>e s0 c s1. step e s0 = Some (Seated c, s1) \<longrightarrow>
             current_customer (shop s1) = Some c \<and> waiting (shop s0) = c # waiting (shop s1)"
    using seated_step_sets_current by blast
  have ord: "\<forall>p q. first_index ?C a = Some p \<and> first_index ?C b = Some q \<longrightarrow> p < q"
    using order by blast
  from order[OF ca cb] ii jj ca cb ord sc cq d q c link show ?thesis by blast
qed

theorem served_in_admission_order_witness:
  "\<exists>ls s. run [Generator 0, Generator 0, Generator 0, Generator 1, Generator 1, Generator 1,
               Customer 1, Customer 0, Customer 1, Customer 0, Barber 0, Barber 0,
               Barber 5, Barber 7, Barber 7, Barber 7, Barber 8, Barber 9] (init_sys 2 1 0)
             = Some (ls, s)
     \<and> observe joined_queue
          [Generator 0, Generator 0, Generator 0, Generator 1, Generator 1, Generator 1,
           Customer 1, Customer 0, Customer 1, Customer 0, Barber 0, Barber 0,
           Barber 5, Barber 7, Barber 7, Barber 7, Barber 8, Barber 9] (init_sys 2 1 0) = [2, 1]
     \<and> observe counted_served
          [Generator 0, Generator 0, Generator 0, Generator 1, Generator 1, Generator 1,
           Customer 1, Customer 0, Customer 1, Customer 0, Barber 0, Barber 0,
           Barber 5, Barber 7, Barber 7, Barber 7, Barber 8, Barber 9] (init_sys 2 1 0) = [2, 1]
     \<and> observe became_current
          [Generator 0, Generator 0, Generator 0, Generator 1, Generator 1, Generator 1,
           Customer 1, Customer 0, Customer 1, Customer 0, Barber 0, Barber 0,
           Barber 5, Barber 7, Barber 7, Barber 7, Barber 8, Barber 9] (init_sys 2 1 0) = [2, 1]
     \<and> first_index [2, 1 :: int] 2 = Some 0 \<and> first_index [2, 1 :: int] 1 = Some 1
     \<and> (0::nat) < 1 \<and> served (shop s) = 2"
proof -
  let ?es = "[Generator 0, Generator 0, Generator 0, Generator 1, Generator 1, Generator 1,
               Customer 1, Customer 0, Customer 1, Customer 0, Barber 0, Barber 0,
               Barber 5, Barber 7, Barber 7, Barber 7, Barber 8, Barber 9]"
  obtain ls s where r: "run ?es (init_sys 2 1 0) = Some (ls, s)"
    and x: "served (shop s) = 2"
    by (simp add: exec_defs)
  have q: "observe joined_queue ?es (init_sys 2 1 0) = [2, 1]"
    by (simp add: exec_defs joined_queue_def)
  have v: "observe counted_served ?es (init_sys 2 1 0) = [2, 1]"
    by (simp add: exec_defs counted_served_def)
  have f: "first_index [2, 1 :: int] 2 = Some 0" "first_index [2, 1 :: int] 1 = Some 1"
    by simp_all
  have h: "first_index (observe joined_queue ?es (init_sys 2 1 0)) 2 = Some 0"
    "first_index (observe joined_queue ?es (init_sys 2 1 0)) 1 = Some 1"
    "(0::nat) < 1"
    "first_index (observe counted_served ?es (init_sys 2 1 0)) 2 = Some 0"
    "first_index (observe counted_served ?es (init_sys 2 1 0)) 1 = Some 1"
    unfolding q v using f by simp_all
  have c: "observe became_current ?es (init_sys 2 1 0) = [2, 1]"
    by (simp add: exec_defs became_current_def)
  from served_in_admission_order[OF r h] r x q v c f show ?thesis by auto
qed

text \<open>
  C6: the completion section of the barber. If the current customer is still the id just
  served, the current customer and the cut start time are cleared, \<open>served\<close> grows by one
  and the status becomes sleeping if the queue is empty and cutting otherwise; if it is
  another id or none, the state is left as it is. This section is the barber's step at
  the end of a cut.
\<close>
theorem barber_finish_guarded:
  "(current_customer st = Some cid \<longrightarrow>
      barber_finish st cid =
        st\<lparr>current_customer := None, haircut_start_time := None,
           served := served st + 1,
           barber_status := (if waiting st = [] then ''sleeping'' else ''cutting'')\<rparr>)
   \<and> (current_customer st \<noteq> Some cid \<longrightarrow> barber_finish st cid = st)
   \<and> (barber_t s = BCut cid \<longrightarrow>
        step (Barber now) s =
          Some (Silent, s\<lparr>shop := barber_finish (shop s) cid, barber_t := BLoop\<rparr>))"
  by (simp add: barber_finish_def step_def barber_worker_step_def)

theorem barber_finish_guarded_witness:
  "current_customer
     ((ShopState_init 2 1)\<lparr>waiting := [2], barber_status := ''cutting'',
        current_customer := Some 1, haircut_start_time := Some 5\<rparr>) = Some 1
   \<and> barber_finish
       ((ShopState_init 2 1)\<lparr>waiting := [2], barber_status := ''cutting'',
          current_customer := Some 1, haircut_start_time := Some 5\<rparr>) 1
     = \<lparr> capacity = 2, cut_time = 1, arrival_speed = 3, waiting = [2], served = 1,
         left = 0, barber_status = ''cutting'', current_customer = None,
         haircut_start_time = None \<rparr>
   \<and> current_customer
       ((ShopState_init 2 1)\<lparr>waiting := [2], barber_status := ''cutting'',
          current_customer := Some 1, haircut_start_time := Some 5\<rparr>) \<noteq> Some 7
   \<and> barber_finish
       ((ShopState_init 2 1)\<lparr>waiting := [2], barber_status := ''cutting'',
          current_customer := Some 1, haircut_start_time := Some 5\<rparr>) 7
     = (ShopState_init 2 1)\<lparr>waiting := [2], barber_status := ''cutting'',
          current_customer := Some 1, haircut_start_time := Some 5\<rparr>
   \<and> barber_t ((init_sys 2 1 0)\<lparr>barber_t := BCut 1\<rparr>) = BCut 1
   \<and> step (Barber 3) ((init_sys 2 1 0)\<lparr>barber_t := BCut 1\<rparr>)
     = Some (Silent, init_sys 2 1 0)"
proof -
  let ?st = "(ShopState_init 2 1)\<lparr>waiting := [2], barber_status := ''cutting'',
          current_customer := Some 1, haircut_start_time := Some 5\<rparr>"
  let ?s = "(init_sys 2 1 0)\<lparr>barber_t := BCut 1\<rparr>"
  have m: "current_customer ?st = Some 1" and n: "current_customer ?st \<noteq> Some 7"
    and b: "barber_t ?s = BCut 1" and c: "current_customer (shop ?s) \<noteq> Some 1"
    by (simp_all add: ShopState_init_def init_sys_def)
  from barber_finish_guarded[of ?st 1 ?s 3] m b
  have 1: "barber_finish ?st 1 =
        ?st\<lparr>current_customer := None, haircut_start_time := None,
           served := served ?st + 1,
           barber_status := (if waiting ?st = [] then ''sleeping'' else ''cutting'')\<rparr>"
    and 3: "step (Barber 3) ?s =
          Some (Silent, ?s\<lparr>shop := barber_finish (shop ?s) 1, barber_t := BLoop\<rparr>)"
    by blast+
  from barber_finish_guarded[of ?st 7 ?s 3] n
  have 2: "barber_finish ?st 7 = ?st" by blast
  from barber_finish_guarded[of "shop ?s" 1 ?s 3] c
  have 4: "barber_finish (shop ?s) 1 = shop ?s" by blast
  have 5: "?s\<lparr>shop := shop ?s, barber_t := BLoop\<rparr> = init_sys 2 1 0"
    by (simp add: init_sys_def)
  show ?thesis
    unfolding 1 2 3 4 5 by (simp add: ShopState_init_def)
qed




text \<open>
  C8: when the barber has acquired the arrival signal and finds the queue empty in its
  locked section, it returns to the top of its loop and nothing else changes: the shop
  state, both semaphores, the stop event and the other threads are as before.
\<close>
theorem spurious_wakeup_noop:
  assumes "barber_t s = BGot" and "waiting (shop s) = []"
  shows "barber_seat now s = (None, s)
       \<and> step (Barber now) s = Some (Silent, s\<lparr>barber_t := BLoop\<rparr>)"
  using assms by (simp add: barber_seat_def step_def barber_worker_step_def)

theorem spurious_wakeup_noop_witness:
  "barber_t ((init_sys 1 1 0)\<lparr>barber_t := BGot\<rparr>) = BGot
   \<and> waiting (shop ((init_sys 1 1 0)\<lparr>barber_t := BGot\<rparr>)) = []
   \<and> barber_seat 4 ((init_sys 1 1 0)\<lparr>barber_t := BGot\<rparr>)
       = (None, (init_sys 1 1 0)\<lparr>barber_t := BGot\<rparr>)
   \<and> step (Barber 4) ((init_sys 1 1 0)\<lparr>barber_t := BGot\<rparr>) = Some (Silent, init_sys 1 1 0)"
proof -
  let ?s = "(init_sys 1 1 0)\<lparr>barber_t := BGot\<rparr>"
  have a: "barber_t ?s = BGot" and b: "waiting (shop ?s) = []"
    by (simp_all add: init_sys_def ShopState_init_def)
  have c: "?s\<lparr>barber_t := BLoop\<rparr> = init_sys 1 1 0" by (simp add: init_sys_def)
  from spurious_wakeup_noop[OF a b, of 4] a b c show ?thesis by simp
qed

text \<open>
  C10: a rejected customer changes nothing but \<open>left\<close>, which grows by one; the queue, the
  other counters, the barber's fields, the configuration and both semaphores are
  unchanged, and its thread is done: in no later schedule does it take another step, so
  it never releases the arrival signal.
\<close>
theorem rejected_only_left:
  assumes "i < length (customer_ts s)" and "customer_ts s ! i = (cid, CStart)"
    and "\<not> int (length (waiting (shop s))) < capacity (shop s)"
  shows "step (Customer i) s =
           Some (Rejected cid,
                 s\<lparr>shop := (shop s)\<lparr>left := left (shop s) + 1\<rparr>,
                   customer_ts := (customer_ts s)[i := (cid, CDone)]\<rparr>)
       \<and> (\<forall>l s' es ls s''. step (Customer i) s = Some (l, s') \<and> run es s' = Some (ls, s'')
            \<longrightarrow> Customer i \<notin> set es \<and> customer_ts s'' ! i = (cid, CDone))"
proof -
  let ?s' = "s\<lparr>shop := (shop s)\<lparr>left := left (shop s) + 1\<rparr>,
                   customer_ts := (customer_ts s)[i := (cid, CDone)]\<rparr>"
  have st: "step (Customer i) s = Some (Rejected cid, ?s')"
    using assms
    by (simp add: step_def customer_worker_step_def customer_enter_def set_pc_def)
  have i': "i < length (customer_ts ?s')" and d: "customer_ts ?s' ! i = (cid, CDone)"
    using assms(1) by simp_all
  have "Customer i \<notin> set es \<and> customer_ts s'' ! i = (cid, CDone)"
    if "run es ?s' = Some (ls, s'')" for es ls s''
    using run_done_stays[OF i' d that] by simp
  with st show ?thesis by auto
qed

theorem rejected_only_left_witness:
  "(1::nat) < length (customer_ts
      ((init_sys 1 1 0)\<lparr>shop := (ShopState_init 1 1)\<lparr>waiting := [1]\<rparr>,
                        customer_ts := [(1, CAdmitted), (2, CStart)]\<rparr>))
   \<and> customer_ts
      ((init_sys 1 1 0)\<lparr>shop := (ShopState_init 1 1)\<lparr>waiting := [1]\<rparr>,
                        customer_ts := [(1, CAdmitted), (2, CStart)]\<rparr>) ! 1 = (2, CStart)
   \<and> \<not> int (length (waiting (ShopState_init 1 1\<lparr>waiting := [1]\<rparr>)))
        < capacity (ShopState_init 1 1\<lparr>waiting := [1]\<rparr>)
   \<and> step (Customer 1)
      ((init_sys 1 1 0)\<lparr>shop := (ShopState_init 1 1)\<lparr>waiting := [1]\<rparr>,
                        customer_ts := [(1, CAdmitted), (2, CStart)]\<rparr>)
     = Some (Rejected 2,
         (init_sys 1 1 0)\<lparr>shop := (ShopState_init 1 1)\<lparr>waiting := [1], left := 1\<rparr>,
                          customer_ts := [(1, CAdmitted), (2, CDone)]\<rparr>)"
proof -
  let ?s = "(init_sys 1 1 0)\<lparr>shop := (ShopState_init 1 1)\<lparr>waiting := [1]\<rparr>,
                        customer_ts := [(1, CAdmitted), (2, CStart)]\<rparr>"
  have a: "1 < length (customer_ts ?s)" and b: "customer_ts ?s ! 1 = (2, CStart)"
    and c: "\<not> int (length (waiting (shop ?s))) < capacity (shop ?s)"
    by (simp_all add: ShopState_init_def)
  from rejected_only_left[OF a b c]
  have "step (Customer 1) ?s =
           Some (Rejected 2,
                 ?s\<lparr>shop := (shop ?s)\<lparr>left := left (shop ?s) + 1\<rparr>,
                   customer_ts := (customer_ts ?s)[1 := (2, CDone)]\<rparr>)"
    by blast
  then show ?thesis by (simp add: ShopState_init_def init_sys_def)
qed

end
